theory Spec2Isabelle
  imports Main "HOL-Library.Word"
begin

section \<open>Scatter/gather segment lists (core.c)\<close>

text \<open>
  The C types of an LP64 target: \<open>size_t\<close>, \<open>unsigned long\<close>, \<open>uint64_t\<close> and pointers are
  64-bit words, \<open>int\<close> and \<open>uint32_t\<close> are 32-bit words, a byte is an 8-bit word. Memory is
  a store from addresses to bytes; \<open>NULL\<close> is address 0. A C array handed over as a
  pointer with its element count is a list, and a pointer into that array is an index into
  the list. The segment descriptors are not part of the byte store: that the regions they
  name are valid and apart from the descriptors is the caller's obligation. Return codes
  (\<open>0\<close>, \<open>-1\<close>) are integers.
\<close>

type_synonym size_t = "64 word"
type_synonym addr = "64 word"
type_synonym byte = "8 word"
type_synonym memory = "addr \<Rightarrow> byte"

record iovec =
  iov_base :: addr
  iov_len :: size_t

record iov_iter =
  iov :: nat
  nr_segs :: size_t
  iov_offset :: size_t

text \<open>
  Dereferencing a segment pointer that has left the array is undefined behaviour in C; the
  model stops there with a fault.
\<close>

datatype fault = OutOfBounds

subsection \<open>The iterator\<close>

text \<open>
  The loop of the general path of \<open>__iov_iter_advance_iov\<close>, on the local variables
  \<open>iov\<close> (here the index \<open>p\<close>), \<open>base\<close> and \<open>bytes\<close>:
  \<^verbatim>\<open>
    while (bytes || !iov->iov_len) {
        int copy = (bytes < iov->iov_len - base) ? bytes : (iov->iov_len - base);
        bytes -= copy;
        base += copy;
        if (iov->iov_len == base) { iov++; base = 0; }
    }
  \<close>
  Both the loop condition (when \<open>bytes\<close> is 0) and the loop body (when it is not) read
  \<open>iov->iov_len\<close>, so every round with \<open>iov\<close> outside the array is a fault. \<open>copy\<close> is
  an \<open>int\<close>: the minimum is cut to 32 bits and sign-extended again where it is subtracted
  from \<open>bytes\<close> and added to \<open>base\<close>. The loop need not terminate, so the result is an
  option: \<open>None\<close> is a loop that runs forever.
\<close>

partial_function (option) advance_loop ::
  "iovec list \<Rightarrow> nat \<Rightarrow> size_t \<Rightarrow> size_t \<Rightarrow> (fault + nat \<times> size_t) option"
where
  "advance_loop segs p base bytes =
     (if length segs \<le> p then Some (Inl OutOfBounds)
      else if bytes \<noteq> 0 \<or> iov_len (segs ! p) = 0 then
        (let copy = (ucast (if bytes < iov_len (segs ! p) - base then bytes
                            else iov_len (segs ! p) - base) :: 32 word);
             bytes' = bytes - scast copy;
             base' = base + scast copy
         in if iov_len (segs ! p) = base' then advance_loop segs (Suc p) 0 bytes'
            else advance_loop segs p base' bytes')
      else Some (Inr (p, base)))"

declare advance_loop.simps [code]

text \<open>
  \<open>__iov_iter_advance_iov\<close>: the fast path when \<open>nr_segs\<close> is 1, the loop otherwise. The
  function returns nothing; it only updates the iterator, and of the iterator never
  \<open>nr_segs\<close>.
\<close>

definition iov_iter_advance_iov ::
  "iovec list \<Rightarrow> iov_iter \<Rightarrow> size_t \<Rightarrow> (fault + iov_iter) option"
where
  "iov_iter_advance_iov segs i bytes =
     (if nr_segs i = 1 then Some (Inr (i\<lparr>iov_offset := iov_offset i + bytes\<rparr>))
      else (case advance_loop segs (iov i) (iov_offset i) bytes of
              None \<Rightarrow> None
            | Some (Inl e) \<Rightarrow> Some (Inl e)
            | Some (Inr (p, base)) \<Rightarrow> Some (Inr (i\<lparr>iov := p, iov_offset := base\<rparr>))))"

definition initialize_iov_iter :: "nat \<Rightarrow> size_t \<Rightarrow> iov_iter" where
  "initialize_iov_iter p n = \<lparr>iov = p, nr_segs = n, iov_offset = 0\<rparr>"

subsection \<open>Lengths and the copy\<close>

text \<open>The summing loops of \<open>safe_copy_data\<close>: \<open>total += iov[i].iov_len\<close> in \<open>size_t\<close>.\<close>

fun sum_lengths :: "size_t \<Rightarrow> iovec list \<Rightarrow> size_t" where
  "sum_lengths tot [] = tot"
| "sum_lengths tot (s # rest) = sum_lengths (tot + iov_len s) rest"

definition total_length :: "iovec list \<Rightarrow> size_t" where
  "total_length segs = sum_lengths 0 segs"

text \<open>
  The last loop of \<open>safe_copy_data\<close>: one advance per source segment, by that segment's
  length (read from the array, not through the iterator).
\<close>

fun advance_each :: "iovec list \<Rightarrow> iovec list \<Rightarrow> iov_iter \<Rightarrow> (fault + iov_iter) option" where
  "advance_each segs [] it = Some (Inr it)"
| "advance_each segs (s # rest) it =
     (case iov_iter_advance_iov segs it (iov_len s) of
        None \<Rightarrow> None
      | Some (Inl e) \<Rightarrow> Some (Inl e)
      | Some (Inr it') \<Rightarrow> advance_each segs rest it')"

text \<open>
  \<open>safe_copy_data\<close> has no statement that writes memory: the store is handed back as it
  came in.
\<close>

definition safe_copy_data ::
  "memory \<Rightarrow> iovec list \<Rightarrow> iovec list \<Rightarrow> (fault + memory \<times> int) option"
where
  "safe_copy_data mem src_iov dst_iov =
     (let total_src = total_length src_iov;
          total_dst = total_length dst_iov
      in if total_src > total_dst then Some (Inr (mem, - 1))
         else (case advance_each src_iov src_iov
                      (initialize_iov_iter 0 (of_nat (length src_iov))) of
                 None \<Rightarrow> None
               | Some (Inl e) \<Rightarrow> Some (Inl e)
               | Some (Inr it) \<Rightarrow> Some (Inr (mem, 0))))"

text \<open>
  \<open>process_iovec_segments\<close>: every segment with a positive length and a base other than
  \<open>NULL\<close> is filled with \<open>data[j] = 'A' + (j % 26)\<close>; \<open>'A'\<close> is 65, and \<open>j\<close> runs
  from 0 to the segment's length.
\<close>

definition fill_byte :: "nat \<Rightarrow> byte" where
  "fill_byte j = of_nat (65 + j mod 26)"

definition fill_segment :: "memory \<Rightarrow> addr \<Rightarrow> size_t \<Rightarrow> memory" where
  "fill_segment mem base len =
     fold (\<lambda>j m. m(base + of_nat j := fill_byte j)) [0..<unat len] mem"

fun process_iovec_segments :: "memory \<Rightarrow> iovec list \<Rightarrow> memory" where
  "process_iovec_segments mem [] = mem"
| "process_iovec_segments mem (s # rest) =
     process_iovec_segments
       (if 0 < iov_len s \<and> iov_base s \<noteq> 0 then fill_segment mem (iov_base s) (iov_len s)
        else mem) rest"

fun validate_iovec_lengths :: "iovec list \<Rightarrow> int" where
  "validate_iovec_lengths [] = 0"
| "validate_iovec_lengths (s # rest) =
     (if iov_len s > 1000000 then - 1 else validate_iovec_lengths rest)"

definition perform_io_operation ::
  "memory \<Rightarrow> iovec list \<Rightarrow> iovec list \<Rightarrow> (fault + memory \<times> int) option"
where
  "perform_io_operation mem src_iov dst_iov =
     (if validate_iovec_lengths src_iov \<noteq> 0 then Some (Inr (mem, - 1))
      else if validate_iovec_lengths dst_iov \<noteq> 0 then Some (Inr (mem, - 1))
      else safe_copy_data (process_iovec_segments mem src_iov) src_iov dst_iov)"

text \<open>
  The only statement of \<open>perform_io_operation\<close> that writes memory is the call of
  \<open>process_iovec_segments\<close>, after both validations and before \<open>safe_copy_data\<close>, which
  writes nothing. So the store that a call leaves is fixed before the iterator is touched,
  however the call ends: the old store when a validation fails, the filled one otherwise.
\<close>

definition perform_io_operation_store :: "memory \<Rightarrow> iovec list \<Rightarrow> iovec list \<Rightarrow> memory" where
  "perform_io_operation_store mem src_iov dst_iov =
     (if validate_iovec_lengths src_iov \<noteq> 0 then mem
      else if validate_iovec_lengths dst_iov \<noteq> 0 then mem
      else process_iovec_segments mem src_iov)"

subsection \<open>Notions of the specification\<close>

text \<open>
  None of the following is computed by the program; they only serve to state its
  properties: the sum of the lengths of a segment list as a natural number, the bytes still
  ahead of the iterator, the iterator standing exactly at the end of the list, and the
  addresses that a segment and a segment list cover.
\<close>

abbreviation lens :: "iovec list \<Rightarrow> nat" where
  "lens segs \<equiv> sum_list (map (\<lambda>s. unat (iov_len s)) segs)"

definition remaining_bytes :: "iovec list \<Rightarrow> iov_iter \<Rightarrow> nat" where
  "remaining_bytes segs i = lens (drop (iov i) segs) - unat (iov_offset i)"

definition exhausted :: "iovec list \<Rightarrow> iov_iter \<Rightarrow> bool" where
  "exhausted segs i \<longleftrightarrow> lens (drop (iov i) segs) = unat (iov_offset i)"

definition segment_addrs :: "iovec \<Rightarrow> addr set" where
  "segment_addrs s = (\<lambda>j. iov_base s + of_nat j) ` {j. j < unat (iov_len s)}"

definition list_addrs :: "iovec list \<Rightarrow> addr set" where
  "list_addrs segs = \<Union> (segment_addrs ` set segs)"

section \<open>Buffer and time conversion (sample.c)\<close>

record buffer =
  data :: addr
  buf_size :: size_t
  capacity :: size_t

text \<open>
  \<open>cleanup_buffer\<close> on the buffer and the log of the pointers handed to \<open>free\<close> so far.
  The field \<open>size\<close> of \<open>struct buffer\<close> is \<open>buf_size\<close> here.
\<close>

definition cleanup_buffer :: "addr list \<times> buffer \<Rightarrow> addr list \<times> buffer" where
  "cleanup_buffer st =
     (case st of (freed, buf) \<Rightarrow>
        (let (freed1, buf1) =
               (if data buf \<noteq> 0 then (freed @ [data buf], buf\<lparr>data := 0\<rparr>) else (freed, buf))
         in (freed1, buf1\<lparr>buf_size := 0, capacity := 0\<rparr>)))"

definition TICK_NSEC :: "64 word" where
  "TICK_NSEC = 1000000"

definition NSEC_PER_SEC :: "64 word" where
  "NSEC_PER_SEC = 1000000000"

record timespec =
  tv_sec :: "64 word"
  tv_nsec :: "64 word"

text \<open>
  \<open>safe_div_u64_rem\<close> returns its code together with the content of \<open>*remainder\<close>, which
  it leaves as it was (\<open>rem0\<close>) on the error branch.
\<close>

definition safe_div_u64_rem :: "64 word \<Rightarrow> 64 word \<Rightarrow> 32 word \<Rightarrow> int \<times> 32 word" where
  "safe_div_u64_rem dividend divisor rem0 =
     (if divisor = 0 then (- 1, rem0) else (0, ucast (dividend mod divisor)))"

text \<open>
  \<open>jiffies_to_timespec\<close>; \<open>rem0\<close> is the content of the uninitialised local \<open>rem\<close>. The
  fields of the result are signed: read them with \<open>sint\<close>.
\<close>

definition jiffies_to_timespec :: "64 word \<Rightarrow> 32 word \<Rightarrow> timespec" where
  "jiffies_to_timespec jiffies rem0 =
     (let result = jiffies * TICK_NSEC in
      (case safe_div_u64_rem result NSEC_PER_SEC rem0 of
         (rc, rem) \<Rightarrow>
           if rc \<noteq> 0 then \<lparr>tv_sec = 0, tv_nsec = 0\<rparr>
           else \<lparr>tv_sec = result div NSEC_PER_SEC, tv_nsec = ucast rem\<rparr>))"

section \<open>Word arithmetic\<close>

lemma ucast_32_64_small:
  fixes r :: "64 word"
  assumes "uint r < 1000000000"
  shows "uint (ucast (ucast r :: 32 word) :: 64 word) = uint r"
proof -
  have "uint r < 2 ^ 32" using assms by simp
  then show ?thesis
    by (simp add: unsigned_ucast_eq unsigned_take_bit_eq take_bit_int_eq_self)
qed

lemma sint_small:
  fixes x :: "64 word"
  assumes "uint x < 1000000000"
  shows "sint x = uint x"
proof -
  have "uint x < 2 ^ 63" using assms by simp
  moreover have "- (2 ^ 63) \<le> uint x"
    by (rule order_trans [of _ 0]) simp_all
  ultimately have "signed_take_bit 63 (uint x) = uint x"
    by (intro signed_take_bit_int_eq_self)
  then show ?thesis by (simp add: sint_uint)
qed

text \<open>An \<open>int copy\<close> below \<open>2^31\<close> survives the cut to 32 bits and the sign extension.\<close>

lemma scast_ucast_small:
  fixes m :: "64 word"
  assumes "unat m < 2 ^ 31"
  shows "(scast (ucast m :: 32 word) :: 64 word) = m"
proof -
  have "int (unat m) < 2 ^ 31"
    using assms by (simp only: of_nat_less_numeral_power_cancel_iff)
  then have u: "uint m < 2 ^ 31" by (simp only: uint_nat)
  moreover have "- (2 ^ 31) \<le> uint m"
    by (rule order_trans [of _ 0]) simp_all
  ultimately have "signed_take_bit 31 (uint m) = uint m"
    by (intro signed_take_bit_int_eq_self)
  then have "sint (ucast m :: 32 word) = uint m"
    by (simp add: signed_ucast_eq)
  then show ?thesis by (simp add: scast_eq)
qed

lemma unat_sum_lengths:
  "unat (sum_lengths tot segs) =
     (unat tot + sum_list (map (\<lambda>s. unat (iov_len s)) segs)) mod 2 ^ 64"
proof (induction segs arbitrary: tot)
  case Nil
  show ?case using unsigned_less [of tot, where 'a=nat] by simp
next
  case (Cons s rest)
  show ?case
    by (simp add: Cons.IH unat_word_ariths mod_simps add.assoc)
qed

text \<open>A validated segment is far below the range of \<open>int\<close>.\<close>

lemma validate_ok_small:
  "validate_iovec_lengths segs = 0 \<Longrightarrow> \<forall>s \<in> set segs. unat (iov_len s) < 2 ^ 31"
proof (induction segs)
  case Nil
  then show ?case by simp
next
  case (Cons s rest)
  from Cons.prems have le: "\<not> 1000000 < iov_len s" and rest: "validate_iovec_lengths rest = 0"
    by (simp_all split: if_splits)
  from le have "unat (iov_len s) \<le> 1000000" by (simp add: word_less_nat_alt)
  then have "unat (iov_len s) < 2 ^ 31" by simp
  then show ?case using Cons.IH [OF rest] by simp
qed

section \<open>The advance loop\<close>

text \<open>
  One round of the loop, over a segment shorter than \<open>2^31\<close> bytes and from an offset
  inside it: when fewer bytes are asked for than the segment still holds, the loop stops in
  the segment; otherwise it moves to the next segment with the rest of the bytes.
\<close>

lemma loop_step_stay:
  assumes p: "p < length segs"
    and small: "unat (iov_len (segs ! p)) < 2 ^ 31"
    and base: "unat base \<le> unat (iov_len (segs ! p))"
    and less: "unat bytes < unat (iov_len (segs ! p)) - unat base"
  shows "advance_loop segs p base bytes = Some (Inr (p, base + bytes))"
proof -
  let ?len = "iov_len (segs ! p)"
  have ble: "base \<le> ?len" using base by (simp add: word_le_nat_alt)
  have sub: "unat (?len - base) = unat ?len - unat base"
    using ble by (rule unat_sub)
  have lt: "bytes < ?len - base" using less sub by (simp add: word_less_nat_alt)
  have nz: "?len \<noteq> 0" using less by (auto simp: unat_eq_zero)
  have bsmall: "unat bytes < 2 ^ 31" using less small by simp
  have cp: "(scast (ucast bytes :: 32 word) :: 64 word) = bytes"
    using bsmall by (rule scast_ucast_small)
  have sum: "unat (base + bytes) = unat base + unat bytes"
    using less small by (simp add: unat_add_lem [THEN iffD1])
  have ne: "?len \<noteq> base + bytes"
  proof
    assume "?len = base + bytes"
    then have "unat ?len = unat base + unat bytes" using sum by simp
    with less show False by simp
  qed
  have exit: "advance_loop segs p (base + bytes) 0 = Some (Inr (p, base + bytes))"
    using p nz by (subst advance_loop.simps) simp
  show ?thesis
  proof (cases "bytes = 0")
    case True
    then show ?thesis using exit by simp
  next
    case False
    then show ?thesis
      using p lt cp ne exit by (subst advance_loop.simps) (simp add: Let_def)
  qed
qed

lemma loop_step_next:
  assumes p: "p < length segs"
    and small: "unat (iov_len (segs ! p)) < 2 ^ 31"
    and base: "unat base \<le> unat (iov_len (segs ! p))"
    and ge: "unat (iov_len (segs ! p)) - unat base \<le> unat bytes"
    and enter: "bytes \<noteq> 0 \<or> iov_len (segs ! p) = 0"
  shows "advance_loop segs p base bytes
           = advance_loop segs (Suc p) 0 (bytes - (iov_len (segs ! p) - base))"
proof -
  let ?len = "iov_len (segs ! p)"
  have ble: "base \<le> ?len" using base by (simp add: word_le_nat_alt)
  have sub: "unat (?len - base) = unat ?len - unat base"
    using ble by (rule unat_sub)
  have nlt: "\<not> bytes < ?len - base" using ge sub by (simp add: word_less_nat_alt)
  have "unat (?len - base) < 2 ^ 31" using sub small by simp
  then have cp: "(scast (ucast (?len - base) :: 32 word) :: 64 word) = ?len - base"
    by (rule scast_ucast_small)
  show ?thesis
    using p nlt cp enter by (subst advance_loop.simps) (auto simp: Let_def)
qed

text \<open>
  The whole loop, by induction on the number of segments ahead. Asked for at least the
  bytes that are left, the loop walks off the array; asked for fewer, it returns inside the
  array, having moved on by exactly the bytes asked for.
\<close>

lemma lens_drop:
  "p < length segs \<Longrightarrow> lens (drop p segs) = unat (iov_len (segs ! p)) + lens (drop (Suc p) segs)"
  by (simp flip: Cons_nth_drop_Suc)

lemma lens_take:
  "p < length segs \<Longrightarrow> lens (take (Suc p) segs) = lens (take p segs) + unat (iov_len (segs ! p))"
  by (simp add: take_Suc_conv_app_nth)

lemma lens_split: "lens (take p segs) + lens (drop p segs) = lens segs"
proof -
  have "lens (take p segs @ drop p segs) = lens segs" by simp
  then show ?thesis by (simp only: map_append sum_list_append)
qed

lemma loop_overrun:
  assumes small: "\<forall>s \<in> set segs. unat (iov_len s) < 2 ^ 31"
    and enter: "p < length segs \<longrightarrow>
                  unat base \<le> unat (iov_len (segs ! p)) \<and> (bytes \<noteq> 0 \<or> iov_len (segs ! p) = 0)"
    and ge: "lens (drop p segs) - unat base \<le> unat bytes"
  shows "advance_loop segs p base bytes = Some (Inl OutOfBounds)"
  using enter ge
proof (induction "length segs - p" arbitrary: p base bytes)
  case 0
  then have "length segs \<le> p" by simp
  then show ?case by (subst advance_loop.simps) simp
next
  case (Suc k)
  let ?len = "iov_len (segs ! p)"
  from Suc.hyps(2) have p: "p < length segs" by simp
  have sm: "unat ?len < 2 ^ 31" using small p by simp
  from Suc.prems(1) p have base: "unat base \<le> unat ?len"
    and ent: "bytes \<noteq> 0 \<or> ?len = 0" by simp_all
  from Suc.prems(2) have ge': "unat ?len + lens (drop (Suc p) segs) - unat base \<le> unat bytes"
    using p by (simp add: lens_drop)
  then have here: "unat ?len - unat base \<le> unat bytes" by simp
  have ble: "base \<le> ?len" using base by (simp add: word_le_nat_alt)
  have sub: "unat (?len - base) = unat ?len - unat base" using ble by (rule unat_sub)
  have "?len - base \<le> bytes" using here sub by (simp add: word_le_nat_alt)
  then have rest: "unat (bytes - (?len - base)) = unat bytes - (unat ?len - unat base)"
    using sub by (simp add: unat_sub)
  have step: "advance_loop segs p base bytes
                = advance_loop segs (Suc p) 0 (bytes - (?len - base))"
    using p sm base here ent by (rule loop_step_next)
  have ge2: "lens (drop (Suc p) segs) - unat (0 :: size_t) \<le> unat (bytes - (?len - base))"
    using ge' base rest by simp
  have ent2: "Suc p < length segs \<longrightarrow>
                unat (0 :: size_t) \<le> unat (iov_len (segs ! Suc p))
                \<and> (bytes - (?len - base) \<noteq> 0 \<or> iov_len (segs ! Suc p) = 0)"
  proof (intro impI conjI)
    assume q: "Suc p < length segs"
    show "bytes - (?len - base) \<noteq> 0 \<or> iov_len (segs ! Suc p) = 0"
    proof (cases "bytes - (?len - base) = 0")
      case True
      then have "lens (drop (Suc p) segs) = 0" using ge2 by simp
      then have "unat (iov_len (segs ! Suc p)) = 0" using q by (simp add: lens_drop)
      then show ?thesis by (simp add: unat_eq_zero)
    qed simp
  qed simp
  have "length segs - Suc p = k" using Suc.hyps(2) by simp
  then have "advance_loop segs (Suc p) 0 (bytes - (?len - base)) = Some (Inl OutOfBounds)"
    using Suc.hyps(1) [of "Suc p" 0 "bytes - (?len - base)"] ent2 ge2 by simp
  with step show ?case by simp
qed

lemma loop_inside:
  assumes small: "\<forall>s \<in> set segs. unat (iov_len s) < 2 ^ 31"
    and p: "p < length segs"
    and base: "unat base \<le> unat (iov_len (segs ! p))"
    and less: "unat bytes < lens (drop p segs) - unat base"
  shows "\<exists>p' base'. advance_loop segs p base bytes = Some (Inr (p', base'))
           \<and> p' < length segs \<and> unat base' \<le> unat (iov_len (segs ! p'))
           \<and> lens (take p' segs) + unat base' = lens (take p segs) + unat base + unat bytes
           \<and> (unat base < unat (iov_len (segs ! p)) \<or> base = 0
                \<longrightarrow> unat base' < unat (iov_len (segs ! p')) \<or> base' = 0)"
  using p base less
proof (induction "length segs - p" arbitrary: p base bytes)
  case 0
  then show ?case by simp
next
  case (Suc k)
  let ?len = "iov_len (segs ! p)"
  note p = Suc.prems(1) and base = Suc.prems(2)
  have sm: "unat ?len < 2 ^ 31" using small p by simp
  have less': "unat bytes < unat ?len + lens (drop (Suc p) segs) - unat base"
    using Suc.prems(3) p by (simp add: lens_drop)
  have ble: "base \<le> ?len" using base by (simp add: word_le_nat_alt)
  have sub: "unat (?len - base) = unat ?len - unat base" using ble by (rule unat_sub)
  consider (stay) "unat bytes < unat ?len - unat base"
    | (halt) "unat ?len - unat base \<le> unat bytes" "bytes = 0" "?len \<noteq> 0"
    | (move) "unat ?len - unat base \<le> unat bytes" "bytes \<noteq> 0 \<or> ?len = 0"
    by fastforce
  then show ?case
  proof cases
    case stay
    have "advance_loop segs p base bytes = Some (Inr (p, base + bytes))"
      using p sm base stay by (rule loop_step_stay)
    moreover have "unat (base + bytes) = unat base + unat bytes"
      using stay sm by (simp add: unat_add_lem [THEN iffD1])
    moreover have "unat base + unat bytes < unat ?len" using stay by simp
    ultimately show ?thesis using p by simp
  next
    case halt
    have "advance_loop segs p base bytes = Some (Inr (p, base))"
      using p halt by (subst advance_loop.simps) simp
    moreover have "\<not> (unat base < unat ?len \<or> base = 0)"
      using halt by (auto simp: unat_eq_zero)
    ultimately show ?thesis using p base halt by simp
  next
    case move
    have "?len - base \<le> bytes" using move(1) sub by (simp add: word_le_nat_alt)
    then have rest: "unat (bytes - (?len - base)) = unat bytes - (unat ?len - unat base)"
      using sub by (simp add: unat_sub)
    have step: "advance_loop segs p base bytes
                  = advance_loop segs (Suc p) 0 (bytes - (?len - base))"
      using p sm base move by (rule loop_step_next)
    have less2: "unat (bytes - (?len - base)) < lens (drop (Suc p) segs) - unat (0 :: size_t)"
      using less' base rest move(1) by simp
    then have q: "Suc p < length segs" by (cases "Suc p < length segs") simp_all
    have k: "k = length segs - Suc p" using Suc.hyps(2) by simp
    obtain p' base' where
      r: "advance_loop segs (Suc p) 0 (bytes - (?len - base)) = Some (Inr (p', base'))"
         "p' < length segs" "unat base' \<le> unat (iov_len (segs ! p'))"
         "lens (take p' segs) + unat base'
            = lens (take (Suc p) segs) + unat (0 :: size_t) + unat (bytes - (?len - base))"
         "unat base' < unat (iov_len (segs ! p')) \<or> base' = 0"
      using Suc.hyps(1) [OF k q _ less2] by auto
    have "lens (take p' segs) + unat base' = lens (take p segs) + unat base + unat bytes"
      using r(4) rest base move(1) p by (simp add: lens_take)
    with r step show ?thesis by simp
  qed
qed

section \<open>The general path\<close>

text \<open>
  The loop lemmas for an iterator on the general path whose cursor is in normal form
  (offset inside the segment, or 0), which is how the general path leaves it.
\<close>

lemma advance_general_overrun:
  assumes small: "\<forall>s \<in> set segs. unat (iov_len s) < 2 ^ 31"
    and general: "nr_segs i \<noteq> 1"
    and idx: "iov i < length segs"
    and cursor: "unat (iov_offset i) < unat (iov_len (segs ! iov i)) \<or> iov_offset i = 0"
    and ge: "remaining_bytes segs i \<le> unat n"
  shows "iov_iter_advance_iov segs i n = Some (Inl OutOfBounds)"
proof -
  have off: "unat (iov_offset i) \<le> unat (iov_len (segs ! iov i))"
    using cursor by auto
  have ge': "lens (drop (iov i) segs) - unat (iov_offset i) \<le> unat n"
    using ge by (simp add: remaining_bytes_def)
  have enter: "n \<noteq> 0 \<or> iov_len (segs ! iov i) = 0"
  proof (cases "n = 0")
    case True
    then have "lens (drop (iov i) segs) \<le> unat (iov_offset i)" using ge' by simp
    then have "unat (iov_len (segs ! iov i)) \<le> unat (iov_offset i)"
      using idx by (simp add: lens_drop)
    then have "unat (iov_len (segs ! iov i)) = 0" using cursor by auto
    then show ?thesis by (simp add: unat_eq_zero)
  qed simp
  have ent: "iov i < length segs \<longrightarrow>
               unat (iov_offset i) \<le> unat (iov_len (segs ! iov i))
               \<and> (n \<noteq> 0 \<or> iov_len (segs ! iov i) = 0)"
    using off enter by blast
  have "advance_loop segs (iov i) (iov_offset i) n = Some (Inl OutOfBounds)"
    using small ent ge' by (rule loop_overrun)
  then show ?thesis using general by (simp add: iov_iter_advance_iov_def)
qed

lemma advance_general_inside:
  assumes small: "\<forall>s \<in> set segs. unat (iov_len s) < 2 ^ 31"
    and general: "nr_segs i \<noteq> 1"
    and idx: "iov i < length segs"
    and cursor: "unat (iov_offset i) < unat (iov_len (segs ! iov i)) \<or> iov_offset i = 0"
    and less: "unat n < remaining_bytes segs i"
  shows "\<exists>i'. iov_iter_advance_iov segs i n = Some (Inr i')
           \<and> nr_segs i' = nr_segs i \<and> iov i' < length segs
           \<and> (unat (iov_offset i') < unat (iov_len (segs ! iov i')) \<or> iov_offset i' = 0)
           \<and> lens (take (iov i') segs) + unat (iov_offset i')
                = lens (take (iov i) segs) + unat (iov_offset i) + unat n"
proof -
  have off: "unat (iov_offset i) \<le> unat (iov_len (segs ! iov i))"
    using cursor by auto
  have less': "unat n < lens (drop (iov i) segs) - unat (iov_offset i)"
    using less by (simp add: remaining_bytes_def)
  from loop_inside [OF small idx off less'] cursor obtain p' base'
    where l: "advance_loop segs (iov i) (iov_offset i) n = Some (Inr (p', base'))"
      and r: "p' < length segs"
        "lens (take p' segs) + unat base'
           = lens (take (iov i) segs) + unat (iov_offset i) + unat n"
        "unat base' < unat (iov_len (segs ! p')) \<or> base' = 0"
    by blast
  have "iov_iter_advance_iov segs i n = Some (Inr (i\<lparr>iov := p', iov_offset := base'\<rparr>))"
    using l general by (simp add: iov_iter_advance_iov_def)
  then show ?thesis using r by simp
qed

text \<open>
  The advances of \<open>safe_copy_data\<close> add up to the total length of the source, so on the
  general path the last of them that has bytes ahead of it walks off the array: a validated
  source of two or more segments never gets through \<open>safe_copy_data\<close>, whatever its
  lengths. The lists that \<open>main\<close> builds are of this kind.
\<close>

lemma advance_each_leaves_array:
  assumes small: "\<forall>s \<in> set segs. unat (iov_len s) < 2 ^ 31"
    and general: "nr_segs it \<noteq> 1"
    and k: "k < length segs"
    and idx: "iov it < length segs"
    and cursor: "unat (iov_offset it) < unat (iov_len (segs ! iov it)) \<or> iov_offset it = 0"
    and pos: "lens (take (iov it) segs) + unat (iov_offset it) = lens (take k segs)"
  shows "advance_each segs (drop k segs) it = Some (Inl OutOfBounds)"
  using general k idx cursor pos
proof (induction "length segs - k" arbitrary: k it)
  case 0
  then show ?case by simp
next
  case (Suc m)
  note k = Suc.prems(2)
  have dropk: "drop k segs = segs ! k # drop (Suc k) segs"
    using k by (simp add: Cons_nth_drop_Suc)
  have "lens (take (iov it) segs) + remaining_bytes segs it + unat (iov_offset it) = lens segs"
  proof -
    have "unat (iov_offset it) \<le> unat (iov_len (segs ! iov it))" using Suc.prems(4) by auto
    also have "\<dots> \<le> lens (drop (iov it) segs)" using Suc.prems(3) by (simp add: lens_drop)
    finally show ?thesis
      using lens_split [of "iov it" segs] by (simp add: remaining_bytes_def)
  qed
  then have "lens (take k segs) + remaining_bytes segs it = lens segs"
    using Suc.prems(5) by simp
  then have "remaining_bytes segs it = lens (drop k segs)"
    using lens_split [of k segs] by simp
  then have rem: "remaining_bytes segs it = unat (iov_len (segs ! k)) + lens (drop (Suc k) segs)"
    using k by (simp add: lens_drop)
  show ?case
  proof (cases "lens (drop (Suc k) segs) = 0")
    case True
    then have "remaining_bytes segs it \<le> unat (iov_len (segs ! k))" using rem by simp
    with small Suc.prems(1,3,4)
    have "iov_iter_advance_iov segs it (iov_len (segs ! k)) = Some (Inl OutOfBounds)"
      by (rule advance_general_overrun)
    then show ?thesis by (simp add: dropk)
  next
    case False
    then have k': "Suc k < length segs" by (cases "Suc k < length segs") simp_all
    have "unat (iov_len (segs ! k)) < remaining_bytes segs it" using rem False by linarith
    with small Suc.prems(1,3,4) obtain it'
      where a: "iov_iter_advance_iov segs it (iov_len (segs ! k)) = Some (Inr it')"
        and g: "nr_segs it' \<noteq> 1" and i: "iov it' < length segs"
        and c: "unat (iov_offset it') < unat (iov_len (segs ! iov it')) \<or> iov_offset it' = 0"
        and p: "lens (take (iov it') segs) + unat (iov_offset it')
                  = lens (take (iov it) segs) + unat (iov_offset it) + unat (iov_len (segs ! k))"
      using advance_general_inside [of segs it "iov_len (segs ! k)"] Suc.prems(1) by auto
    have p': "lens (take (iov it') segs) + unat (iov_offset it') = lens (take (Suc k) segs)"
      using p Suc.prems(5) k by (simp add: lens_take)
    have m: "m = length segs - Suc k" using Suc.hyps(2) by simp
    have "advance_each segs (drop (Suc k) segs) it' = Some (Inl OutOfBounds)"
      using m g k' i c p' by (rule Suc.hyps(1))
    then show ?thesis using a by (simp add: dropk)
  qed
qed

lemma safe_copy_data_leaves_array:
  assumes valid: "validate_iovec_lengths src_iov = 0"
    and many: "2 \<le> length src_iov" "length src_iov < 2 ^ 64"
    and cap: "total_length src_iov \<le> total_length dst_iov"
  shows "safe_copy_data mem src_iov dst_iov = Some (Inl OutOfBounds)"
proof -
  have small: "\<forall>s \<in> set src_iov. unat (iov_len s) < 2 ^ 31"
    using valid by (rule validate_ok_small)
  have "unat (of_nat (length src_iov) :: size_t) = length src_iov"
    using many(2) by (simp add: unat_of_nat)
  then have general: "nr_segs (initialize_iov_iter 0 (of_nat (length src_iov))) \<noteq> 1"
    using many(1) by (auto simp: initialize_iov_iter_def)
  have "advance_each src_iov (drop 0 src_iov) (initialize_iov_iter 0 (of_nat (length src_iov)))
          = Some (Inl OutOfBounds)"
    using small general
  proof (rule advance_each_leaves_array)
    show "0 < length src_iov" using many(1) by linarith
    then show "iov (initialize_iov_iter 0 (of_nat (length src_iov))) < length src_iov"
      by (simp add: initialize_iov_iter_def)
  qed (simp_all add: initialize_iov_iter_def)
  then show ?thesis
    using cap by (simp add: safe_copy_data_def Let_def not_less [symmetric])
qed

lemma main_input_leaves_array:
  "safe_copy_data mem
     [\<lparr>iov_base = b0, iov_len = 10\<rparr>, \<lparr>iov_base = b1, iov_len = 0\<rparr>, \<lparr>iov_base = b2, iov_len = 15\<rparr>]
     [\<lparr>iov_base = d0, iov_len = 10\<rparr>, \<lparr>iov_base = d1, iov_len = 0\<rparr>, \<lparr>iov_base = d2, iov_len = 15\<rparr>]
   = Some (Inl OutOfBounds)"
  by (simp add: safe_copy_data_def total_length_def initialize_iov_iter_def
        iov_iter_advance_iov_def advance_loop.simps)

section \<open>The store\<close>

text \<open>
  Filling writes inside the segments only, and byte \<open>j\<close> of a filled segment is
  \<open>'A' + (j % 26)\<close> unless a later segment of the list covers the same address.
\<close>

lemma fold_fill_frame:
  "a \<notin> (\<lambda>j. base + of_nat j) ` set js \<Longrightarrow>
     fold (\<lambda>j m. m(base + of_nat j := fill_byte j)) js mem a = mem a"
  by (induction js arbitrary: mem) auto

lemma fill_segment_frame:
  "a \<notin> segment_addrs s \<Longrightarrow> fill_segment mem (iov_base s) (iov_len s) a = mem a"
  unfolding fill_segment_def segment_addrs_def
  by (rule fold_fill_frame) (simp add: atLeast0LessThan lessThan_def)

lemma process_iovec_segments_frame:
  "a \<notin> list_addrs segs \<Longrightarrow> process_iovec_segments mem segs a = mem a"
proof (induction segs arbitrary: mem)
  case Nil
  then show ?case by simp
next
  case (Cons s rest)
  from Cons.prems have here: "a \<notin> segment_addrs s" and there: "a \<notin> list_addrs rest"
    by (simp_all add: list_addrs_def)
  show ?case using Cons.IH [OF there] here by (simp add: fill_segment_frame)
qed

lemma unat_fill_byte: "unat (fill_byte j) = 65 + j mod 26"
proof -
  have "65 + j mod 26 < 256"
    using mod_less_divisor [of 26 j] by linarith
  then show ?thesis
    unfolding fill_byte_def by (simp only: unat_of_nat) simp
qed

lemma of_nat_inj_size_t:
  assumes "j < 2 ^ 64" "j' < 2 ^ 64" "(of_nat j :: size_t) = of_nat j'"
  shows "j = j'"
proof -
  have "unat (of_nat j :: size_t) = unat (of_nat j' :: size_t)" using assms(3) by simp
  then show ?thesis using assms(1,2) by (simp add: unat_of_nat)
qed

lemma fold_fill_exact:
  fixes base :: addr
  assumes "j \<in> set js" and "\<forall>j' \<in> set js. j' < 2 ^ 64"
  shows "fold (\<lambda>j m. m(base + of_nat j := fill_byte j)) js mem (base + of_nat j) = fill_byte j"
  using assms
proof (induction js arbitrary: mem)
  case Nil
  then show ?case by simp
next
  case (Cons x xs)
  show ?case
  proof (cases "j \<in> set xs")
    case True
    moreover have "\<forall>j' \<in> set xs. j' < 2 ^ 64" using Cons.prems(2) by simp
    ultimately have "fold (\<lambda>j m. m(base + of_nat j := fill_byte j)) xs
                 (mem(base + of_nat x := fill_byte x)) (base + of_nat j) = fill_byte j"
      by (rule Cons.IH)
    then show ?thesis by (simp only: fold_simps)
  next
    case False
    then have jx: "j = x" using Cons.prems(1) by simp
    have "base + of_nat j \<notin> (\<lambda>j. base + of_nat j) ` set xs"
    proof
      assume "base + of_nat j \<in> (\<lambda>j. base + of_nat j) ` set xs"
      then obtain j' where j': "j' \<in> set xs" "base + of_nat j = base + of_nat j'" by auto
      have "(of_nat j :: size_t) = of_nat j'" using j'(2) by (simp only: add_left_cancel)
      moreover have "j < 2 ^ 64" "j' < 2 ^ 64" using Cons.prems j'(1) by auto
      ultimately have "j = j'" by (rule of_nat_inj_size_t [rotated 2])
      with j'(1) False show False by simp
    qed
    then have "fold (\<lambda>j m. m(base + of_nat j := fill_byte j)) xs
                 (mem(base + of_nat x := fill_byte x)) (base + of_nat j)
               = (mem(base + of_nat x := fill_byte x)) (base + of_nat j)"
      by (rule fold_fill_frame)
    then show ?thesis using jx by (simp only: fold_simps) simp
  qed
qed

lemma fill_segment_exact:
  assumes "j < unat len"
  shows "fill_segment mem base len (base + of_nat j) = fill_byte j"
proof -
  have "unat len < 2 ^ 64" using unsigned_less [of len, where 'a=nat] by simp
  then have "\<forall>j' \<in> set [0..<unat len]. j' < 2 ^ 64" by auto
  moreover have "j \<in> set [0..<unat len]" using assms by simp
  ultimately show ?thesis unfolding fill_segment_def by (rule fold_fill_exact [rotated])
qed

lemma process_iovec_segments_exact:
  assumes "k < length segs" and "iov_base (segs ! k) \<noteq> 0" and "j < unat (iov_len (segs ! k))"
    and "iov_base (segs ! k) + of_nat j \<notin> list_addrs (drop (Suc k) segs)"
  shows "process_iovec_segments mem segs (iov_base (segs ! k) + of_nat j) = fill_byte j"
  using assms
proof (induction segs arbitrary: mem k)
  case Nil
  then show ?case by simp
next
  case (Cons x rest)
  show ?case
  proof (cases k)
    case 0
    have pos: "0 < iov_len x" using Cons.prems(3) 0 by (auto simp: word_greater_zero_iff unat_eq_zero)
    have "process_iovec_segments mem (x # rest) (iov_base x + of_nat j)
            = process_iovec_segments (fill_segment mem (iov_base x) (iov_len x)) rest
                (iov_base x + of_nat j)"
      using pos Cons.prems(2) 0 by simp
    also have "\<dots> = fill_segment mem (iov_base x) (iov_len x) (iov_base x + of_nat j)"
      using Cons.prems(4) 0 by (simp add: process_iovec_segments_frame)
    also have "\<dots> = fill_byte j"
      using Cons.prems(3) 0 by (simp add: fill_segment_exact)
    finally show ?thesis using 0 by simp
  next
    case (Suc k')
    then show ?thesis using Cons.IH [of k'] Cons.prems by simp
  qed
qed

lemma safe_copy_data_store:
  "safe_copy_data mem src_iov dst_iov = Some (Inr (mem', r)) \<Longrightarrow> mem' = mem"
  by (auto simp: safe_copy_data_def Let_def split: if_splits option.splits sum.splits)

lemma safe_copy_data_short:
  assumes cap: "total_length src_iov \<le> total_length dst_iov"
    and short: "length src_iov \<le> 1"
  shows "safe_copy_data mem src_iov dst_iov = Some (Inr (mem, 0))"
proof (cases src_iov)
  case Nil
  then show ?thesis
    using cap by (simp add: safe_copy_data_def Let_def not_less [symmetric])
next
  case (Cons s rest)
  with short have "src_iov = [s]" by simp
  then show ?thesis
    using cap
    by (simp add: safe_copy_data_def Let_def not_less [symmetric]
          initialize_iov_iter_def iov_iter_advance_iov_def)
qed

section \<open>The copy\<close>

text \<open>
  C1, as the claim states it, fails. Source and destination are one byte each, at disjoint
  addresses; the source byte is 9 and the destination byte is 7. The call returns 0, the
  destination byte is still 7, and the source byte has become \<open>'A'\<close>: nothing was copied.
\<close>

theorem copy_counterexample:
  "perform_io_operation (\<lambda>a. if a = 4096 then 9 else 7)
       [\<lparr>iov_base = 4096, iov_len = 1\<rparr>] [\<lparr>iov_base = 8192, iov_len = 1\<rparr>]
     = Some (Inr ((\<lambda>a. if a = 4096 then 9 else 7)(4096 := 65), 0))
   \<and> ((\<lambda>a. if a = 4096 then 9 else 7)(4096 := 65 :: byte)) (8192 :: addr) = 7"
  by (simp add: perform_io_operation_def safe_copy_data_def total_length_def
        initialize_iov_iter_def iov_iter_advance_iov_def fill_segment_def fill_byte_def)

text \<open>
  C1, amended: for lists that pass the length validator, with a destination total at least
  the source total and a source of at most one segment, \<open>perform_io_operation\<close> returns 0.
  No byte is transferred: the store it leaves is the one \<open>process_iovec_segments\<close> made of
  the source, and every address outside the source segments holds its old byte.
\<close>

theorem copy_single_segment:
  assumes src_ok: "validate_iovec_lengths src_iov = 0"
    and dst_ok: "validate_iovec_lengths dst_iov = 0"
    and cap: "total_length src_iov \<le> total_length dst_iov"
    and short: "length src_iov \<le> 1"
  shows "perform_io_operation mem src_iov dst_iov
           = Some (Inr (process_iovec_segments mem src_iov, 0))
         \<and> (\<forall>a. a \<notin> list_addrs src_iov \<longrightarrow> process_iovec_segments mem src_iov a = mem a)"
  using src_ok dst_ok safe_copy_data_short [OF cap short]
  by (simp add: perform_io_operation_def process_iovec_segments_frame)

theorem copy_single_segment_witness:
  "perform_io_operation (\<lambda>a. 0)
       [\<lparr>iov_base = 4096, iov_len = 1\<rparr>]
       [\<lparr>iov_base = 8192, iov_len = 1\<rparr>, \<lparr>iov_base = 8200, iov_len = 2\<rparr>]
     = Some (Inr ((\<lambda>a. 0)(4096 := 65), 0))"
  using copy_single_segment
          [of "[\<lparr>iov_base = 4096, iov_len = 1\<rparr>]"
              "[\<lparr>iov_base = 8192, iov_len = 1\<rparr>, \<lparr>iov_base = 8200, iov_len = 2\<rparr>]" "\<lambda>a. 0"]
  by (simp add: total_length_def fill_segment_def fill_byte_def)

section \<open>Advancing by what is left\<close>

text \<open>
  C2 does not hold of the code. On the general path, over a validated list and from a
  cursor inside the array, an advance by exactly the remaining bytes never returns: having
  consumed them (and skipped the zero-length segments behind them) the loop tests
  \<open>iov->iov_len\<close> one element past the end of the array.
\<close>

theorem advance_remaining_leaves_array:
  assumes valid: "validate_iovec_lengths segs = 0"
    and general: "nr_segs i \<noteq> 1"
    and idx: "iov i < length segs"
    and cursor: "unat (iov_offset i) < unat (iov_len (segs ! iov i)) \<or> iov_offset i = 0"
    and n: "unat n = remaining_bytes segs i"
  shows "iov_iter_advance_iov segs i n = Some (Inl OutOfBounds)"
proof -
  have small: "\<forall>s \<in> set segs. unat (iov_len s) < 2 ^ 31"
    using valid by (rule validate_ok_small)
  have "remaining_bytes segs i \<le> unat n" using n by simp
  with small general idx cursor show ?thesis by (rule advance_general_overrun)
qed

theorem advance_remaining_leaves_array_witness:
  "remaining_bytes [\<lparr>iov_base = 4096, iov_len = 10\<rparr>, \<lparr>iov_base = 8192, iov_len = 0\<rparr>]
       \<lparr>iov = 0, nr_segs = 2, iov_offset = 0\<rparr> = 10
   \<and> iov_iter_advance_iov [\<lparr>iov_base = 4096, iov_len = 10\<rparr>, \<lparr>iov_base = 8192, iov_len = 0\<rparr>]
       \<lparr>iov = 0, nr_segs = 2, iov_offset = 0\<rparr> 10 = Some (Inl OutOfBounds)"
  using advance_remaining_leaves_array
          [of "[\<lparr>iov_base = 4096, iov_len = 10\<rparr>, \<lparr>iov_base = 8192, iov_len = 0\<rparr>]"
              "\<lparr>iov = 0, nr_segs = 2, iov_offset = 0\<rparr>" 10]
  by (simp add: remaining_bytes_def)

section \<open>Advancing beyond what is left\<close>

text \<open>
  C3, as the claim states it, fails: on a single segment of 100 bytes, 100 bytes remain, and
  an advance by 150 returns normally with the offset at 150.
\<close>

theorem advance_overrun_counterexample:
  "remaining_bytes [\<lparr>iov_base = 4096, iov_len = 100\<rparr>] \<lparr>iov = 0, nr_segs = 1, iov_offset = 0\<rparr> = 100
   \<and> iov_iter_advance_iov [\<lparr>iov_base = 4096, iov_len = 100\<rparr>]
        \<lparr>iov = 0, nr_segs = 1, iov_offset = 0\<rparr> 150
       = Some (Inr \<lparr>iov = 0, nr_segs = 1, iov_offset = 150\<rparr>)"
  by (simp add: remaining_bytes_def iov_iter_advance_iov_def)

text \<open>
  C3, amended: \<open>__iov_iter_advance_iov\<close> reports no error. On the single-segment fast path
  (\<open>nr_segs = 1\<close>) it returns for every \<open>n\<close>, with \<open>iov_offset\<close> increased by \<open>n\<close> modulo
  \<open>2^64\<close> and the other fields as they were; when \<open>n\<close> exceeds the remaining bytes of a
  one-segment list and the sum does not wrap, the new offset lies beyond the segment.
\<close>

theorem advance_fast_path_unchecked:
  assumes fast: "nr_segs i = 1"
  shows "iov_iter_advance_iov segs i n = Some (Inr (i\<lparr>iov_offset := iov_offset i + n\<rparr>))
         \<and> (iov i < length segs \<and> length segs = Suc (iov i)
              \<and> unat (iov_offset i) \<le> unat (iov_len (segs ! iov i))
              \<and> remaining_bytes segs i < unat n \<and> unat (iov_offset i) + unat n < 2 ^ 64
            \<longrightarrow> unat (iov_len (segs ! iov i)) < unat (iov_offset i + n))"
proof (intro conjI impI)
  show "iov_iter_advance_iov segs i n = Some (Inr (i\<lparr>iov_offset := iov_offset i + n\<rparr>))"
    using fast by (simp add: iov_iter_advance_iov_def)
next
  assume h: "iov i < length segs \<and> length segs = Suc (iov i)
              \<and> unat (iov_offset i) \<le> unat (iov_len (segs ! iov i))
              \<and> remaining_bytes segs i < unat n \<and> unat (iov_offset i) + unat n < 2 ^ 64"
  then have "lens (drop (iov i) segs) = unat (iov_len (segs ! iov i))"
    by (simp add: lens_drop)
  then have "unat (iov_len (segs ! iov i)) - unat (iov_offset i) < unat n"
    using h by (simp add: remaining_bytes_def)
  moreover have "unat (iov_offset i + n) = unat (iov_offset i) + unat n"
    using h by (simp add: unat_add_lem [THEN iffD1])
  ultimately show "unat (iov_len (segs ! iov i)) < unat (iov_offset i + n)"
    using h by simp
qed

theorem advance_fast_path_unchecked_witness:
  "iov_iter_advance_iov [\<lparr>iov_base = 4096, iov_len = 100\<rparr>]
        \<lparr>iov = 0, nr_segs = 1, iov_offset = 40\<rparr> 61
       = Some (Inr \<lparr>iov = 0, nr_segs = 1, iov_offset = 101\<rparr>)
   \<and> remaining_bytes [\<lparr>iov_base = 4096, iov_len = 100\<rparr>] \<lparr>iov = 0, nr_segs = 1, iov_offset = 40\<rparr> = 60
   \<and> unat (iov_len ([\<lparr>iov_base = 4096, iov_len = 100\<rparr>] ! 0)) < unat (40 + 61 :: size_t)"
  using advance_fast_path_unchecked
          [of "\<lparr>iov = 0, nr_segs = 1, iov_offset = 40\<rparr>" "[\<lparr>iov_base = 4096, iov_len = 100\<rparr>]" 61]
  by (simp add: remaining_bytes_def)

section \<open>The iterator invariant\<close>

text \<open>
  C4, as the claim states it, fails on the fast path: from index 0 and offset 0 on a segment
  of 100 bytes, an advance by 150 leaves index 0 and offset 150; the iterator is not at the
  end of the list and its offset exceeds the segment's length.
\<close>

theorem advance_invariant_counterexample:
  "iov \<lparr>iov = 0, nr_segs = 1, iov_offset = 0\<rparr> < length [\<lparr>iov_base = 4096, iov_len = 100\<rparr>]
   \<and> unat (iov_offset \<lparr>iov = 0, nr_segs = 1, iov_offset = 0\<rparr>)
        \<le> unat (iov_len ([\<lparr>iov_base = 4096, iov_len = 100\<rparr>] ! 0))
   \<and> iov_iter_advance_iov [\<lparr>iov_base = 4096, iov_len = 100\<rparr>]
        \<lparr>iov = 0, nr_segs = 1, iov_offset = 0\<rparr> 150
       = Some (Inr \<lparr>iov = 0, nr_segs = 1, iov_offset = 150\<rparr>)
   \<and> \<not> exhausted [\<lparr>iov_base = 4096, iov_len = 100\<rparr>] \<lparr>iov = 0, nr_segs = 1, iov_offset = 150\<rparr>
   \<and> \<not> unat (iov_offset \<lparr>iov = 0, nr_segs = 1, iov_offset = 150\<rparr>)
          \<le> unat (iov_len ([\<lparr>iov_base = 4096, iov_len = 100\<rparr>]
                 ! iov \<lparr>iov = 0, nr_segs = 1, iov_offset = 150\<rparr>))"
  by (simp add: exhausted_def iov_iter_advance_iov_def)

text \<open>
  C4, amended: over a list that passes the length validator, from an index inside the list
  and an offset of at most the segment's length, an advance by \<open>n\<close> returns and leaves the
  index inside the list and the offset at most the length of the segment at the index,
  having moved the cursor by exactly \<open>n\<close> bytes, provided that \<open>n\<close> is less than the
  remaining bytes on the general path, or at most the bytes left in the segment on the
  fast path.
\<close>

theorem advance_preserves_invariant:
  assumes valid: "validate_iovec_lengths segs = 0"
    and idx: "iov i < length segs"
    and off: "unat (iov_offset i) \<le> unat (iov_len (segs ! iov i))"
    and bound: "if nr_segs i = 1
                then unat (iov_offset i) + unat n \<le> unat (iov_len (segs ! iov i))
                else unat n < remaining_bytes segs i"
  shows "\<exists>i'. iov_iter_advance_iov segs i n = Some (Inr i')
           \<and> nr_segs i' = nr_segs i
           \<and> iov i' < length segs
           \<and> unat (iov_offset i') \<le> unat (iov_len (segs ! iov i'))
           \<and> lens (take (iov i') segs) + unat (iov_offset i')
                = lens (take (iov i) segs) + unat (iov_offset i) + unat n"
proof (cases "nr_segs i = 1")
  case True
  then have le: "unat (iov_offset i) + unat n \<le> unat (iov_len (segs ! iov i))"
    using bound by simp
  then have "unat (iov_offset i) + unat n < 2 ^ 64"
    using unsigned_less [of "iov_len (segs ! iov i)", where 'a=nat] by simp
  then have sum: "unat (iov_offset i + n) = unat (iov_offset i) + unat n"
    by (simp add: unat_add_lem [THEN iffD1])
  have "iov_iter_advance_iov segs i n = Some (Inr (i\<lparr>iov_offset := iov_offset i + n\<rparr>))"
    using True by (simp add: iov_iter_advance_iov_def)
  then show ?thesis using sum le idx by simp
next
  case False
  have small: "\<forall>s \<in> set segs. unat (iov_len s) < 2 ^ 31"
    using valid by (rule validate_ok_small)
  have less: "unat n < lens (drop (iov i) segs) - unat (iov_offset i)"
    using False bound by (simp add: remaining_bytes_def)
  from loop_inside [OF small idx off less] obtain p' base'
    where l: "advance_loop segs (iov i) (iov_offset i) n = Some (Inr (p', base'))"
      and r: "p' < length segs" "unat base' \<le> unat (iov_len (segs ! p'))"
        "lens (take p' segs) + unat base'
           = lens (take (iov i) segs) + unat (iov_offset i) + unat n"
    by blast
  have "iov_iter_advance_iov segs i n = Some (Inr (i\<lparr>iov := p', iov_offset := base'\<rparr>))"
    using l False by (simp add: iov_iter_advance_iov_def)
  then show ?thesis using r by simp
qed

theorem advance_preserves_invariant_witness:
  "iov_iter_advance_iov
       [\<lparr>iov_base = 4096, iov_len = 10\<rparr>, \<lparr>iov_base = 0, iov_len = 0\<rparr>, \<lparr>iov_base = 8192, iov_len = 15\<rparr>]
       \<lparr>iov = 0, nr_segs = 3, iov_offset = 0\<rparr> 12
     = Some (Inr \<lparr>iov = 2, nr_segs = 3, iov_offset = 2\<rparr>)
   \<and> remaining_bytes
       [\<lparr>iov_base = 4096, iov_len = 10\<rparr>, \<lparr>iov_base = 0, iov_len = 0\<rparr>, \<lparr>iov_base = 8192, iov_len = 15\<rparr>]
       \<lparr>iov = 0, nr_segs = 3, iov_offset = 0\<rparr> = 25
   \<and> iov_iter_advance_iov [\<lparr>iov_base = 4096, iov_len = 100\<rparr>]
       \<lparr>iov = 0, nr_segs = 1, iov_offset = 40\<rparr> 60
     = Some (Inr \<lparr>iov = 0, nr_segs = 1, iov_offset = 100\<rparr>)"
  using advance_preserves_invariant
          [of "[\<lparr>iov_base = 4096, iov_len = 10\<rparr>, \<lparr>iov_base = 0, iov_len = 0\<rparr>,
                \<lparr>iov_base = 8192, iov_len = 15\<rparr>]"
              "\<lparr>iov = 0, nr_segs = 3, iov_offset = 0\<rparr>" 12]
        advance_preserves_invariant
          [of "[\<lparr>iov_base = 4096, iov_len = 100\<rparr>]" "\<lparr>iov = 0, nr_segs = 1, iov_offset = 40\<rparr>" 60]
  by (simp add: remaining_bytes_def iov_iter_advance_iov_def advance_loop.simps)

section \<open>What the copy writes\<close>

text \<open>
  C5, as the claim states it, fails: a call that returns 0 has overwritten the source byte
  at 16384, which was 0, with \<open>'A'\<close>.
\<close>

theorem source_overwritten_counterexample:
  "perform_io_operation (\<lambda>a. 0)
       [\<lparr>iov_base = 16384, iov_len = 1\<rparr>] [\<lparr>iov_base = 32768, iov_len = 4\<rparr>]
     = Some (Inr ((\<lambda>a. 0)(16384 := 65), 0))
   \<and> (\<lambda>a. 0 :: byte) (16384 :: addr) \<noteq> ((\<lambda>a. 0)(16384 := 65)) 16384"
  by (simp add: perform_io_operation_def safe_copy_data_def total_length_def
        initialize_iov_iter_def iov_iter_advance_iov_def fill_segment_def fill_byte_def)

text \<open>
  C5, amended: \<open>perform_io_operation\<close> writes the source and nothing else, whether or not
  the call returns. The store it leaves agrees with the old one at every address outside
  the source segments, and a store that the call returns is that store. If a list fails
  the length validator nothing is written and the call returns \<open>-1\<close>. If both lists pass,
  byte \<open>j\<close> of every source segment with a base other than \<open>NULL\<close> holds
  \<open>'A' + (j % 26)\<close>, that is \<open>65 + j mod 26\<close>, unless a later source segment covers its
  address; and when the source total exceeds the destination total the call returns \<open>-1\<close>
  with the source filled all the same.
\<close>

theorem perform_io_operation_writes:
  "(\<forall>mem' r. perform_io_operation mem src_iov dst_iov = Some (Inr (mem', r)) \<longrightarrow>
       mem' = perform_io_operation_store mem src_iov dst_iov)
   \<and> (a \<notin> list_addrs src_iov \<longrightarrow> perform_io_operation_store mem src_iov dst_iov a = mem a)
   \<and> (validate_iovec_lengths src_iov \<noteq> 0 \<or> validate_iovec_lengths dst_iov \<noteq> 0 \<longrightarrow>
         perform_io_operation_store mem src_iov dst_iov = mem
         \<and> perform_io_operation mem src_iov dst_iov = Some (Inr (mem, - 1)))
   \<and> (validate_iovec_lengths src_iov = 0 \<and> validate_iovec_lengths dst_iov = 0 \<longrightarrow>
         (total_length dst_iov < total_length src_iov \<longrightarrow>
              perform_io_operation mem src_iov dst_iov
                = Some (Inr (perform_io_operation_store mem src_iov dst_iov, - 1)))
         \<and> (k < length src_iov \<and> iov_base (src_iov ! k) \<noteq> 0 \<and> j < unat (iov_len (src_iov ! k))
              \<and> iov_base (src_iov ! k) + of_nat j \<notin> list_addrs (drop (Suc k) src_iov) \<longrightarrow>
              unat (perform_io_operation_store mem src_iov dst_iov (iov_base (src_iov ! k) + of_nat j))
                = 65 + j mod 26))"
proof -
  let ?ok = "validate_iovec_lengths src_iov = 0 \<and> validate_iovec_lengths dst_iov = 0"
  let ?store = "perform_io_operation_store mem src_iov dst_iov"
  have st_ok: "?store = process_iovec_segments mem src_iov" if ?ok
    using that by (simp add: perform_io_operation_store_def)
  have st_bad: "?store = mem" if "\<not> ?ok"
    using that by (auto simp: perform_io_operation_store_def)
  have run_ok: "perform_io_operation mem src_iov dst_iov
                  = safe_copy_data (process_iovec_segments mem src_iov) src_iov dst_iov" if ?ok
    using that by (simp add: perform_io_operation_def)
  have run_bad: "perform_io_operation mem src_iov dst_iov = Some (Inr (mem, - 1))" if "\<not> ?ok"
    using that by (auto simp: perform_io_operation_def)
  have c1: "\<forall>mem' r. perform_io_operation mem src_iov dst_iov = Some (Inr (mem', r)) \<longrightarrow>
              mem' = ?store"
  proof (cases ?ok)
    case True
    show ?thesis
      unfolding run_ok [OF True] st_ok [OF True] by (blast dest: safe_copy_data_store)
  next
    case False
    show ?thesis unfolding run_bad [OF False] st_bad [OF False] by simp
  qed
  have c2: "a \<notin> list_addrs src_iov \<longrightarrow> ?store a = mem a"
  proof (cases ?ok)
    case True
    show ?thesis unfolding st_ok [OF True] by (simp add: process_iovec_segments_frame)
  next
    case False
    show ?thesis unfolding st_bad [OF False] by simp
  qed
  have c3: "validate_iovec_lengths src_iov \<noteq> 0 \<or> validate_iovec_lengths dst_iov \<noteq> 0 \<longrightarrow>
              ?store = mem \<and> perform_io_operation mem src_iov dst_iov = Some (Inr (mem, - 1))"
  proof
    assume "validate_iovec_lengths src_iov \<noteq> 0 \<or> validate_iovec_lengths dst_iov \<noteq> 0"
    then have "\<not> ?ok" by blast
    then show "?store = mem \<and> perform_io_operation mem src_iov dst_iov = Some (Inr (mem, - 1))"
      using st_bad run_bad by blast
  qed
  have c4: "?ok \<longrightarrow>
         (total_length dst_iov < total_length src_iov \<longrightarrow>
              perform_io_operation mem src_iov dst_iov = Some (Inr (?store, - 1)))
         \<and> (k < length src_iov \<and> iov_base (src_iov ! k) \<noteq> 0 \<and> j < unat (iov_len (src_iov ! k))
              \<and> iov_base (src_iov ! k) + of_nat j \<notin> list_addrs (drop (Suc k) src_iov) \<longrightarrow>
              unat (?store (iov_base (src_iov ! k) + of_nat j)) = 65 + j mod 26)"
  proof (intro impI conjI)
    assume ok: ?ok and "total_length dst_iov < total_length src_iov"
    then show "perform_io_operation mem src_iov dst_iov = Some (Inr (?store, - 1))"
      unfolding run_ok [OF ok] st_ok [OF ok] by (simp add: safe_copy_data_def)
  next
    assume ok: ?ok
      and h: "k < length src_iov \<and> iov_base (src_iov ! k) \<noteq> 0 \<and> j < unat (iov_len (src_iov ! k))
              \<and> iov_base (src_iov ! k) + of_nat j \<notin> list_addrs (drop (Suc k) src_iov)"
    have "process_iovec_segments mem src_iov (iov_base (src_iov ! k) + of_nat j) = fill_byte j"
      using h by (intro process_iovec_segments_exact) blast+
    then show "unat (?store (iov_base (src_iov ! k) + of_nat j)) = 65 + j mod 26"
      unfolding st_ok [OF ok] by (simp only: unat_fill_byte)
  qed
  from c1 c2 c3 c4 show ?thesis by - (intro conjI, assumption+)
qed

theorem perform_io_operation_writes_witness:
  "unat (perform_io_operation_store (\<lambda>a. 0)
           [\<lparr>iov_base = 4096, iov_len = 3\<rparr>] [\<lparr>iov_base = 8192, iov_len = 2\<rparr>] 4097) = 66
   \<and> perform_io_operation (\<lambda>a. 0) [\<lparr>iov_base = 4096, iov_len = 3\<rparr>] [\<lparr>iov_base = 8192, iov_len = 2\<rparr>]
       = Some (Inr (perform_io_operation_store (\<lambda>a. 0)
                      [\<lparr>iov_base = 4096, iov_len = 3\<rparr>] [\<lparr>iov_base = 8192, iov_len = 2\<rparr>], - 1))"
proof -
  let ?src = "[\<lparr>iov_base = 4096, iov_len = 3\<rparr>]"
  let ?dst = "[\<lparr>iov_base = 8192, iov_len = 2\<rparr>]"
  note t = perform_io_operation_writes [of "\<lambda>a. 0" ?src ?dst 8192 0 1]
  have ok: "validate_iovec_lengths ?src = 0 \<and> validate_iovec_lengths ?dst = 0" by simp
  have cap: "total_length ?dst < total_length ?src" by (simp add: total_length_def)
  have pre: "0 < length ?src \<and> iov_base (?src ! 0) \<noteq> 0 \<and> 1 < unat (iov_len (?src ! 0))
               \<and> iov_base (?src ! 0) + of_nat 1 \<notin> list_addrs (drop (Suc 0) ?src)"
    by (simp add: list_addrs_def)
  have a: "unat (perform_io_operation_store (\<lambda>a. 0) ?src ?dst (iov_base (?src ! 0) + of_nat 1))
             = 65 + 1 mod 26"
    using t ok pre by blast
  have b: "perform_io_operation (\<lambda>a. 0) ?src ?dst
             = Some (Inr (perform_io_operation_store (\<lambda>a. 0) ?src ?dst, - 1))"
    using t ok cap by blast
  show ?thesis using a b by simp
qed

section \<open>The total length\<close>

text \<open>
  C6, as the claim states it, fails: the sum of the lengths \<open>2^64 - 1\<close> and \<open>2\<close> is
  \<open>2^64 + 1\<close>, \<open>total_length\<close> returns the wrapped value 1 and no error, and the capacity
  test against a destination of one byte passes on the wrapped value.
\<close>

theorem total_length_wrap_counterexample:
  "sum_list (map (\<lambda>s. unat (iov_len s))
       [\<lparr>iov_base = 4096, iov_len = 0xFFFFFFFFFFFFFFFF\<rparr>, \<lparr>iov_base = 8192, iov_len = 2\<rparr>])
     = 2 ^ 64 + 1
   \<and> total_length
        [\<lparr>iov_base = 4096, iov_len = 0xFFFFFFFFFFFFFFFF\<rparr>, \<lparr>iov_base = 8192, iov_len = 2\<rparr>] = 1
   \<and> \<not> total_length [\<lparr>iov_base = 16384, iov_len = 1\<rparr>]
         < total_length
             [\<lparr>iov_base = 4096, iov_len = 0xFFFFFFFFFFFFFFFF\<rparr>, \<lparr>iov_base = 8192, iov_len = 2\<rparr>]"
  by (simp add: total_length_def)

text \<open>
  C6, amended: \<open>total_length\<close> is the sum of the segment lengths modulo \<open>2^64\<close>, for every
  segment list; the program has no overflow error.
\<close>

theorem total_length_wraps:
  "unat (total_length segs) = sum_list (map (\<lambda>s. unat (iov_len s)) segs) mod 2 ^ 64"
  by (simp add: total_length_def unat_sum_lengths)

section \<open>Insufficient capacity\<close>

text \<open>
  C7: when the source's total length, as the code sums it, exceeds the destination's,
  \<open>safe_copy_data\<close> returns \<open>-1\<close> and the store is what it was before the call. Called
  through \<open>perform_io_operation\<close> the result is \<open>-1\<close> as well, and every address outside
  the source segments holds the byte it held before.
\<close>

theorem safe_copy_data_insufficient:
  assumes cap: "total_length dst_iov < total_length src_iov"
  shows "safe_copy_data mem src_iov dst_iov = Some (Inr (mem, - 1))
         \<and> (\<exists>mem'. perform_io_operation mem src_iov dst_iov = Some (Inr (mem', - 1))
                \<and> (\<forall>a. a \<notin> list_addrs src_iov \<longrightarrow> mem' a = mem a))"
proof
  show "safe_copy_data mem src_iov dst_iov = Some (Inr (mem, - 1))"
    using cap by (simp add: safe_copy_data_def)
next
  have "safe_copy_data (process_iovec_segments mem src_iov) src_iov dst_iov
          = Some (Inr (process_iovec_segments mem src_iov, - 1))"
    using cap by (simp add: safe_copy_data_def)
  then show "\<exists>mem'. perform_io_operation mem src_iov dst_iov = Some (Inr (mem', - 1))
                \<and> (\<forall>a. a \<notin> list_addrs src_iov \<longrightarrow> mem' a = mem a)"
    by (simp add: perform_io_operation_def process_iovec_segments_frame)
qed

theorem safe_copy_data_insufficient_witness:
  "total_length [\<lparr>iov_base = 8192, iov_len = 3\<rparr>]
     < total_length [\<lparr>iov_base = 4096, iov_len = 4\<rparr>, \<lparr>iov_base = 4100, iov_len = 1\<rparr>]
   \<and> safe_copy_data (\<lambda>a. 0) [\<lparr>iov_base = 4096, iov_len = 4\<rparr>, \<lparr>iov_base = 4100, iov_len = 1\<rparr>]
        [\<lparr>iov_base = 8192, iov_len = 3\<rparr>] = Some (Inr (\<lambda>a. 0, - 1))"
proof -
  have h: "total_length [\<lparr>iov_base = 8192, iov_len = 3\<rparr>]
     < total_length [\<lparr>iov_base = 4096, iov_len = 4\<rparr>, \<lparr>iov_base = 4100, iov_len = 1\<rparr>]"
    by (simp add: total_length_def)
  show ?thesis using h safe_copy_data_insufficient [OF h, of "\<lambda>a. 0"] by simp
qed

section \<open>The length validator\<close>

text \<open>
  C8: \<open>validate_iovec_lengths\<close> returns \<open>-1\<close> exactly when some segment is longer than
  1,000,000 bytes, and 0 exactly when every segment is at most that long; on the empty list
  it returns 0.
\<close>

theorem validate_iovec_lengths_iff:
  "(validate_iovec_lengths segs = - 1 \<longleftrightarrow> (\<exists>s \<in> set segs. 1000000 < unat (iov_len s)))
   \<and> (validate_iovec_lengths segs = 0 \<longleftrightarrow> (\<forall>s \<in> set segs. unat (iov_len s) \<le> 1000000))
   \<and> validate_iovec_lengths [] = 0"
  by (induction segs) (auto simp: word_less_nat_alt)

theorem validate_iovec_lengths_iff_witness:
  "validate_iovec_lengths
     [\<lparr>iov_base = 100, iov_len = 1000000\<rparr>, \<lparr>iov_base = 200, iov_len = 1000001\<rparr>] = - 1
   \<and> (\<exists>s \<in> set [\<lparr>iov_base = 100, iov_len = 1000000\<rparr>, \<lparr>iov_base = 200, iov_len = 1000001\<rparr>].
         1000000 < unat (iov_len s))"
  using validate_iovec_lengths_iff
          [of "[\<lparr>iov_base = 100, iov_len = 1000000\<rparr>, \<lparr>iov_base = 200, iov_len = 1000001\<rparr>]"]
  by simp

section \<open>Time conversion\<close>

text \<open>
  C9: in \<open>jiffies_to_timespec\<close> the call of \<open>safe_div_u64_rem\<close> returns 0 for every
  \<open>jiffies\<close>, so the zero-divisor branch is never taken, and \<open>tv_nsec\<close>, read as a signed
  number, is the remainder of the 64-bit product by 1,000,000,000: at least 0 and below
  1,000,000,000.
\<close>

theorem jiffies_to_timespec_nsec_range:
  "fst (safe_div_u64_rem (jiffies * TICK_NSEC) NSEC_PER_SEC rem0) = 0
   \<and> 0 \<le> sint (tv_nsec (jiffies_to_timespec jiffies rem0))
   \<and> sint (tv_nsec (jiffies_to_timespec jiffies rem0)) < 1000000000
   \<and> sint (tv_nsec (jiffies_to_timespec jiffies rem0))
       = uint (jiffies * TICK_NSEC) mod 1000000000"
proof -
  define r where "r = (jiffies * TICK_NSEC) mod NSEC_PER_SEC"
  have r: "uint r = uint (jiffies * TICK_NSEC) mod 1000000000"
    by (simp add: r_def NSEC_PER_SEC_def uint_mod_distrib)
  then have rb: "uint r < 1000000000" by simp
  have nz: "NSEC_PER_SEC \<noteq> 0" by (simp add: NSEC_PER_SEC_def)
  have nsec: "tv_nsec (jiffies_to_timespec jiffies rem0) = ucast (ucast r :: 32 word)"
    using nz by (simp add: jiffies_to_timespec_def safe_div_u64_rem_def Let_def r_def)
  have u: "uint (tv_nsec (jiffies_to_timespec jiffies rem0)) = uint r"
    unfolding nsec using rb by (rule ucast_32_64_small)
  have s: "sint (tv_nsec (jiffies_to_timespec jiffies rem0)) = uint r"
    using sint_small [of "tv_nsec (jiffies_to_timespec jiffies rem0)"] u rb by simp
  have code: "fst (safe_div_u64_rem (jiffies * TICK_NSEC) NSEC_PER_SEC rem0) = 0"
    using nz by (simp add: safe_div_u64_rem_def)
  show ?thesis using code s r rb by simp
qed

theorem jiffies_to_timespec_nsec_range_witness:
  "jiffies_to_timespec 1000 7 = \<lparr>tv_sec = 1, tv_nsec = 0\<rparr>
   \<and> sint (tv_nsec (jiffies_to_timespec 2500 7)) = 500000000"
  using jiffies_to_timespec_nsec_range [of 2500 7]
  by (simp add: jiffies_to_timespec_def safe_div_u64_rem_def TICK_NSEC_def NSEC_PER_SEC_def)

section \<open>Buffer cleanup\<close>

text \<open>
  C10: \<open>cleanup_buffer\<close> is idempotent. A second call gives the state of the first, the
  buffer is then \<open>data = NULL\<close>, \<open>size = 0\<close>, \<open>capacity = 0\<close>, and the second call hands
  nothing to \<open>free\<close>: the log of freed pointers is the log after the first call.
\<close>

theorem cleanup_buffer_idempotent:
  "cleanup_buffer (cleanup_buffer st) = cleanup_buffer st
   \<and> snd (cleanup_buffer st) = \<lparr>data = 0, buf_size = 0, capacity = 0\<rparr>
   \<and> fst (cleanup_buffer (cleanup_buffer st)) = fst (cleanup_buffer st)"
  by (cases st) (auto simp: cleanup_buffer_def Let_def)

theorem cleanup_buffer_idempotent_witness:
  "cleanup_buffer (cleanup_buffer ([], \<lparr>data = 4096, buf_size = 4, capacity = 1024\<rparr>))
     = ([4096], \<lparr>data = 0, buf_size = 0, capacity = 0\<rparr>)"
  using cleanup_buffer_idempotent [of "([], \<lparr>data = 4096, buf_size = 4, capacity = 1024\<rparr>)"]
  by (simp add: cleanup_buffer_def)

end
